theory Spec2Isabelle
  imports Main
begin

section \<open>Board model of \<^verbatim>\<open>minimax.py\<close>\<close>

text \<open>
  The class \<^verbatim>\<open>TicTacToe\<close> keeps a board as a list of three rows of three cells; a cell
  is \<^verbatim>\<open>None\<close>, \<^verbatim>\<open>"X"\<close> or \<^verbatim>\<open>"O"\<close>. Every board the program handles is built by
  \<^verbatim>\<open>__init__\<close> or by \<^verbatim>\<open>copy.deepcopy\<close> of such a board, so the shape is fixed and is
  part of the type here. Indices are Python integers; every index the modelled
  functions read with comes from \<^verbatim>\<open>range(3)\<close>, a literal, or an action that was
  checked against \<^verbatim>\<open>actions(board)\<close> first.
\<close>

text \<open>The marks \<^verbatim>\<open>self.X\<close> and \<^verbatim>\<open>self.O\<close>.\<close>

datatype player = PlayerX | PlayerO

type_synonym cell = "player option"

datatype row = Row cell cell cell

datatype board = Board row row row

type_synonym action = "int \<times> int"

datatype error = InvalidAction

text \<open>\<^verbatim>\<open>row[j]\<close> and \<^verbatim>\<open>board[i]\<close>, for an index in \<^verbatim>\<open>range(3)\<close>.\<close>

fun row_get :: "row \<Rightarrow> int \<Rightarrow> cell" where
  "row_get (Row c0 c1 c2) j = (if j = 0 then c0 else if j = 1 then c1 else c2)"

fun board_row :: "board \<Rightarrow> int \<Rightarrow> row" where
  "board_row (Board r0 r1 r2) i = (if i = 0 then r0 else if i = 1 then r1 else r2)"

definition cell_at :: "board \<Rightarrow> action \<Rightarrow> cell" where
  "cell_at b a = row_get (board_row b (fst a)) (snd a)"

text \<open>\<^verbatim>\<open>row[j] = c\<close> and \<^verbatim>\<open>board[i][j] = c\<close>, for indices in \<^verbatim>\<open>range(3)\<close>.\<close>

fun row_set :: "row \<Rightarrow> int \<Rightarrow> cell \<Rightarrow> row" where
  "row_set (Row c0 c1 c2) j c =
     (if j = 0 then Row c c1 c2 else if j = 1 then Row c0 c c2 else Row c0 c1 c)"

fun board_set :: "board \<Rightarrow> action \<Rightarrow> cell \<Rightarrow> board" where
  "board_set (Board r0 r1 r2) a c =
     (if fst a = 0 then Board (row_set r0 (snd a) c) r1 r2
      else if fst a = 1 then Board r0 (row_set r1 (snd a) c) r2
      else Board r0 r1 (row_set r2 (snd a) c))"

definition empty_board :: board where
  "empty_board = Board (Row None None None) (Row None None None) (Row None None None)"

text \<open>
  \<^verbatim>\<open>actions\<close>: the two nested loops over \<^verbatim>\<open>range(3)\<close> add every coordinate of an empty
  cell to a set.
\<close>

definition cells :: "action list" where
  "cells = [(i, j). i \<leftarrow> [0, 1, 2], j \<leftarrow> [0, 1, 2]]"

definition actions :: "board \<Rightarrow> action set" where
  "actions b = set [a \<leftarrow> cells. cell_at b a = None]"

text \<open>\<^verbatim>\<open>player\<close>: \<^verbatim>\<open>sum(row.count(p) for row in board)\<close> for both marks; X moves first.\<close>

fun row_count :: "row \<Rightarrow> cell \<Rightarrow> nat" where
  "row_count (Row c0 c1 c2) c =
     (if c0 = c then 1 else 0) + (if c1 = c then 1 else 0) + (if c2 = c then 1 else 0)"

fun count_cells :: "board \<Rightarrow> cell \<Rightarrow> nat" where
  "count_cells (Board r0 r1 r2) c = row_count r0 c + row_count r1 c + row_count r2 c"

definition player :: "board \<Rightarrow> player" where
  "player b =
     (let x_count = count_cells b (Some PlayerX); o_count = count_cells b (Some PlayerO)
      in if x_count \<le> o_count then PlayerX else PlayerO)"

text \<open>
  \<^verbatim>\<open>result\<close>: raises on an action that is not in \<^verbatim>\<open>actions(board)\<close>; otherwise a copy
  of the board with the mark of \<^verbatim>\<open>player(board)\<close> at the action.
\<close>

definition result :: "board \<Rightarrow> action \<Rightarrow> error + board" where
  "result b a =
     (if a \<notin> actions b then Inl InvalidAction
      else Inr (board_set b a (Some (player b))))"

text \<open>
  \<^verbatim>\<open>winner\<close>: the rows in order, then the columns in order, then the two diagonals;
  \<^verbatim>\<open>a == b == c and a is not None\<close> is the test on each line.
\<close>

definition line3 :: "cell \<Rightarrow> cell \<Rightarrow> cell \<Rightarrow> bool" where
  "line3 c0 c1 c2 \<longleftrightarrow> c0 = c1 \<and> c1 = c2 \<and> c0 \<noteq> None"

definition winner :: "board \<Rightarrow> cell" where
  "winner b =
     (case find (\<lambda>r. line3 (row_get r 0) (row_get r 1) (row_get r 2))
             [board_row b 0, board_row b 1, board_row b 2] of
        Some r \<Rightarrow> row_get r 0
      | None \<Rightarrow>
     (case find (\<lambda>j. line3 (cell_at b (0, j)) (cell_at b (1, j)) (cell_at b (2, j)))
             [0, 1, 2] of
        Some j \<Rightarrow> cell_at b (0, j)
      | None \<Rightarrow>
        if line3 (cell_at b (0, 0)) (cell_at b (1, 1)) (cell_at b (2, 2))
        then cell_at b (0, 0)
        else if line3 (cell_at b (0, 2)) (cell_at b (1, 1)) (cell_at b (2, 0))
        then cell_at b (0, 2)
        else None))"

definition terminal :: "board \<Rightarrow> bool" where
  "terminal b \<longleftrightarrow> winner b \<noteq> None \<or> card (actions b) = 0"

definition utility :: "board \<Rightarrow> int" where
  "utility b =
     (let w = winner b
      in if w = Some PlayerX then 1 else if w = Some PlayerO then - 1 else 0)"

section \<open>The search\<close>

text \<open>
  The values compared in \<^verbatim>\<open>max_value\<close> and \<^verbatim>\<open>min_value\<close> are Python numbers: the
  utilities \<^verbatim>\<open>1\<close>, \<^verbatim>\<open>0\<close>, \<^verbatim>\<open>-1\<close> and the initial \<^verbatim>\<open>-math.inf\<close> and \<^verbatim>\<open>math.inf\<close>.
\<close>

datatype num = NegInf | IntV int | PosInf

fun num_less :: "num \<Rightarrow> num \<Rightarrow> bool" where
  "num_less NegInf NegInf = False"
| "num_less NegInf _ = True"
| "num_less (IntV x) (IntV y) = (x < y)"
| "num_less (IntV x) PosInf = True"
| "num_less (IntV x) NegInf = False"
| "num_less PosInf _ = False"

text \<open>
  \<^verbatim>\<open>for action in self.actions(board)\<close> iterates over a Python set. The language
  fixes no order for that; it is a function of the set built by \<^verbatim>\<open>actions\<close>, and the
  search takes it as a parameter. An iteration order lists every element of a set
  of board coordinates once.
\<close>

type_synonym iteration = "action set \<Rightarrow> action list"

definition iteration_order :: "iteration \<Rightarrow> bool" where
  "iteration_order it \<longleftrightarrow> (\<forall>S. S \<subseteq> set cells \<longrightarrow> set (it S) = S \<and> distinct (it S))"

text \<open>Two iteration orders: the insertion order of \<^verbatim>\<open>actions\<close>, and its reverse.\<close>

definition row_major :: iteration where
  "row_major S = [a \<leftarrow> cells. a \<in> S]"

definition reverse_row_major :: iteration where
  "reverse_row_major S = [a \<leftarrow> rev cells. a \<in> S]"

definition count_empty :: "board \<Rightarrow> nat" where
  "count_empty b = count_cells b None"

lemma in_cells: "a \<in> set cells \<longleftrightarrow> fst a \<in> {0, 1, 2} \<and> snd a \<in> {0, 1, 2}"
  by (cases a) (auto simp: cells_def)

lemma row_get_row_set:
  "j \<in> {0, 1, 2} \<Longrightarrow> j' \<in> {0, 1, 2} \<Longrightarrow>
   row_get (row_set r j c) j' = (if j' = j then c else row_get r j')"
  by (cases r) auto

lemma board_row_board_set:
  "fst a \<in> {0, 1, 2} \<Longrightarrow> i \<in> {0, 1, 2} \<Longrightarrow>
   board_row (board_set b a c) i =
     (if i = fst a then row_set (board_row b i) (snd a) c else board_row b i)"
  by (cases b) auto

lemma cell_at_board_set:
  "a \<in> set cells \<Longrightarrow> a' \<in> set cells \<Longrightarrow>
   cell_at (board_set b a c) a' = (if a' = a then c else cell_at b a')"
  unfolding in_cells cell_at_def
  by (simp add: board_row_board_set row_get_row_set prod_eq_iff del: insert_iff)

lemma row_count_row_set:
  "j \<in> {0, 1, 2} \<Longrightarrow> row_get r j = None \<Longrightarrow>
   Suc (row_count (row_set r j (Some p)) None) = row_count r None"
  by (cases r) auto

lemma count_empty_board_set:
  "a \<in> set cells \<Longrightarrow> cell_at b a = None \<Longrightarrow>
   Suc (count_empty (board_set b a (Some p))) = count_empty b"
  unfolding in_cells cell_at_def
  using row_count_row_set [of "snd a" _ p]
  by (cases b) (auto simp: count_empty_def simp del: row_count.simps row_set.simps row_get.simps)

lemma actions_iff: "a \<in> actions b \<longleftrightarrow> a \<in> set cells \<and> cell_at b a = None"
  by (simp add: actions_def)

lemma result_count_empty:
  "result b a = Inr b' \<Longrightarrow> count_empty b' < count_empty b"
  using count_empty_board_set [of a b "player b"]
  by (auto simp: result_def actions_iff split: if_splits)

text \<open>
  \<^verbatim>\<open>max_value\<close> and \<^verbatim>\<open>min_value\<close>. The \<^verbatim>\<open>for\<close> loop of each is the function
  \<open>max_loop\<close> (\<open>min_loop\<close>) over the actions still to visit, with the loop
  variables \<^verbatim>\<open>v\<close> and \<^verbatim>\<open>best_action\<close>; an exception raised by \<^verbatim>\<open>result\<close> or by the
  recursive call leaves the loop.
\<close>

function max_value :: "iteration \<Rightarrow> board \<Rightarrow> error + (num \<times> action option)"
  and max_loop :: "iteration \<Rightarrow> board \<Rightarrow> action list \<Rightarrow> num \<Rightarrow> action option
                     \<Rightarrow> error + (num \<times> action option)"
  and min_value :: "iteration \<Rightarrow> board \<Rightarrow> error + (num \<times> action option)"
  and min_loop :: "iteration \<Rightarrow> board \<Rightarrow> action list \<Rightarrow> num \<Rightarrow> action option
                     \<Rightarrow> error + (num \<times> action option)"
where
  "max_value it b =
     (if terminal b then Inr (IntV (utility b), None)
      else max_loop it b (it (actions b)) NegInf None)"
| "max_loop it b [] v best_action = Inr (v, best_action)"
| "max_loop it b (a # as) v best_action =
     (case result b a of
        Inl e \<Rightarrow> Inl e
      | Inr b' \<Rightarrow>
          (case min_value it b' of
             Inl e \<Rightarrow> Inl e
           | Inr (min_val, _) \<Rightarrow>
               if num_less v min_val then max_loop it b as min_val (Some a)
               else max_loop it b as v best_action))"
| "min_value it b =
     (if terminal b then Inr (IntV (utility b), None)
      else min_loop it b (it (actions b)) PosInf None)"
| "min_loop it b [] v best_action = Inr (v, best_action)"
| "min_loop it b (a # as) v best_action =
     (case result b a of
        Inl e \<Rightarrow> Inl e
      | Inr b' \<Rightarrow>
          (case max_value it b' of
             Inl e \<Rightarrow> Inl e
           | Inr (max_val, _) \<Rightarrow>
               if num_less max_val v then min_loop it b as max_val (Some a)
               else min_loop it b as v best_action))"
  apply pat_completeness
  apply simp_all
  done
termination
  by (relation "measures
        [\<lambda>x. case x of
           Inl (Inl (it, b)) \<Rightarrow> count_empty b
         | Inl (Inr (it, b, as, v, best)) \<Rightarrow> count_empty b
         | Inr (Inl (it, b)) \<Rightarrow> count_empty b
         | Inr (Inr (it, b, as, v, best)) \<Rightarrow> count_empty b,
         \<lambda>x. case x of
           Inl (Inl (it, b)) \<Rightarrow> 1
         | Inl (Inr (it, b, as, v, best)) \<Rightarrow> 0
         | Inr (Inl (it, b)) \<Rightarrow> 1
         | Inr (Inr (it, b, as, v, best)) \<Rightarrow> 0,
         \<lambda>x. case x of
           Inl (Inl (it, b)) \<Rightarrow> 0
         | Inl (Inr (it, b, as, v, best)) \<Rightarrow> length as
         | Inr (Inl (it, b)) \<Rightarrow> 0
         | Inr (Inr (it, b, as, v, best)) \<Rightarrow> length as]")
     (auto dest: result_count_empty)

text \<open>\<^verbatim>\<open>minimax\<close>: \<^verbatim>\<open>None\<close> on a terminal board, else the action of the player's search.\<close>

definition minimax :: "iteration \<Rightarrow> board \<Rightarrow> error + action option" where
  "minimax it b =
     (if terminal b then Inr None
      else if player b = PlayerX
      then (case max_value it b of Inl e \<Rightarrow> Inl e | Inr (_, action) \<Rightarrow> Inr action)
      else (case min_value it b of Inl e \<Rightarrow> Inl e | Inr (_, action) \<Rightarrow> Inr action))"

section \<open>Properties of the board functions\<close>

lemma length_filter_sum_list:
  "length (filter P xs) = sum_list (map (\<lambda>x. if P x then 1 else 0) xs)"
  by (induction xs) auto

lemma distinct_cells: "distinct cells"
  by (simp add: cells_def)

lemma board_cases:
  obtains c0 c1 c2 c3 c4 c5 c6 c7 c8 where
    "b = Board (Row c0 c1 c2) (Row c3 c4 c5) (Row c6 c7 c8)"
  by (metis board.exhaust row.exhaust)

lemma card_actions: "card (actions b) = count_empty b"
proof -
  obtain c0 c1 c2 c3 c4 c5 c6 c7 c8 where
    b: "b = Board (Row c0 c1 c2) (Row c3 c4 c5) (Row c6 c7 c8)"
    by (rule board_cases)
  have "card (actions b) = length [a \<leftarrow> cells. cell_at b a = None]"
    unfolding actions_def by (rule distinct_card) (simp add: distinct_cells)
  also have "\<dots> = count_empty b"
    unfolding length_filter_sum_list by (simp add: b cells_def cell_at_def count_empty_def)
  finally show ?thesis .
qed

lemma row_count_total:
  "row_count r None + row_count r (Some PlayerX) + row_count r (Some PlayerO) = 3"
proof (cases r)
  case (Row c0 c1 c2)
  have one: "(if c = None then 1 else 0) + (if c = Some PlayerX then 1 else 0)
       + (if c = Some PlayerO then 1 else (0::nat)) = 1" for c :: cell
    by (cases c rule: option.exhaust; auto) (metis player.exhaust)
  show ?thesis using one [of c0] one [of c1] one [of c2] by (simp add: Row)
qed

lemma winner_empty_board: "winner empty_board = None"
  by (simp add: winner_def empty_board_def line3_def cell_at_def)

lemma count_empty_empty_board: "count_empty empty_board = 9"
  by (simp add: empty_board_def count_empty_def)

lemma terminal_empty_board: "\<not> terminal empty_board"
  by (simp add: terminal_def winner_empty_board card_actions count_empty_empty_board)

text \<open>
  C8: on every board, the number of actions plus the number of X cells plus the
  number of O cells is 9.
\<close>

theorem actions_and_marks_count_nine:
  "card (actions b) + count_cells b (Some PlayerX) + count_cells b (Some PlayerO) = 9"
proof (cases b)
  case (Board r0 r1 r2)
  show ?thesis
    using row_count_total [of r0] row_count_total [of r1] row_count_total [of r2]
    by (simp add: card_actions count_empty_def Board)
qed

text \<open>
  C10: \<open>utility\<close> is a total function with no error result; its value is one of
  \<open>-1\<close>, \<open>0\<close>, \<open>1\<close> on every board, terminal or not, and it is \<open>0\<close> whenever
  \<open>winner\<close> returns \<open>None\<close>.
\<close>

theorem utility_total_and_zero_without_winner:
  "utility b \<in> {- 1, 0, 1} \<and> (winner b = None \<longrightarrow> utility b = 0)"
  by (simp add: utility_def Let_def)

text \<open>The empty board is in progress (not terminal), has no winner, and has utility 0.\<close>

theorem utility_total_and_zero_without_winner_witness:
  "\<not> terminal empty_board \<and> winner empty_board = None \<and> utility empty_board = 0
   \<and> utility empty_board \<in> {- 1, 0, 1}"
  using utility_total_and_zero_without_winner [of empty_board]
  by (simp add: winner_empty_board terminal_empty_board)

section \<open>What the search returns\<close>

declare max_value.simps [simp del] min_value.simps [simp del]

text \<open>
  The value a search result carries, and the value of the position after an action:
  \<^verbatim>\<open>min_val, _ = self.min_value(self.result(board, action))\<close> in \<^verbatim>\<open>max_value\<close> and
  \<^verbatim>\<open>max_val, _ = self.max_value(self.result(board, action))\<close> in \<^verbatim>\<open>min_value\<close>.
\<close>

definition value_of :: "error + (num \<times> action option) \<Rightarrow> int" where
  "value_of r = (case r of Inr (IntV v, _) \<Rightarrow> v | _ \<Rightarrow> 0)"

definition min_value_after :: "iteration \<Rightarrow> board \<Rightarrow> action \<Rightarrow> int" where
  "min_value_after it b a =
     (case result b a of Inl e \<Rightarrow> 0 | Inr b' \<Rightarrow> value_of (min_value it b'))"

definition max_value_after :: "iteration \<Rightarrow> board \<Rightarrow> action \<Rightarrow> int" where
  "max_value_after it b a =
     (case result b a of Inl e \<Rightarrow> 0 | Inr b' \<Rightarrow> value_of (max_value it b'))"

text \<open>
  The two loops over a list of actions whose values are given by a function: the loop
  of \<^verbatim>\<open>max_value\<close> with its strict \<^verbatim>\<open>>\<close>, the loop of \<^verbatim>\<open>min_value\<close> with its strict \<^verbatim>\<open><\<close>.
\<close>

fun scan_max :: "(action \<Rightarrow> int) \<Rightarrow> action list \<Rightarrow> num \<Rightarrow> action option
                   \<Rightarrow> num \<times> action option" where
  "scan_max f [] v best = (v, best)"
| "scan_max f (a # as) v best =
     (if num_less v (IntV (f a)) then scan_max f as (IntV (f a)) (Some a)
      else scan_max f as v best)"

fun scan_min :: "(action \<Rightarrow> int) \<Rightarrow> action list \<Rightarrow> num \<Rightarrow> action option
                   \<Rightarrow> num \<times> action option" where
  "scan_min f [] v best = (v, best)"
| "scan_min f (a # as) v best =
     (if num_less (IntV (f a)) v then scan_min f as (IntV (f a)) (Some a)
      else scan_min f as v best)"

lemma max_loop_scan:
  "(\<And>a. a \<in> set as \<Longrightarrow> \<exists>b' a'. result b a = Inr b' \<and> min_value it b' = Inr (IntV (f a), a'))
   \<Longrightarrow> max_loop it b as v best = Inr (scan_max f as v best)"
proof (induction as arbitrary: v best)
  case Nil
  show ?case by simp
next
  case (Cons a as)
  obtain b' a' where s: "result b a = Inr b'" "min_value it b' = Inr (IntV (f a), a')"
    using Cons.prems [of a] by auto
  have rest: "max_loop it b as v' best' = Inr (scan_max f as v' best')" for v' best'
    using Cons.prems by (intro Cons.IH) auto
  show ?case by (simp add: s rest)
qed

lemma min_loop_scan:
  "(\<And>a. a \<in> set as \<Longrightarrow> \<exists>b' a'. result b a = Inr b' \<and> max_value it b' = Inr (IntV (f a), a'))
   \<Longrightarrow> min_loop it b as v best = Inr (scan_min f as v best)"
proof (induction as arbitrary: v best)
  case Nil
  show ?case by simp
next
  case (Cons a as)
  obtain b' a' where s: "result b a = Inr b'" "max_value it b' = Inr (IntV (f a), a')"
    using Cons.prems [of a] by auto
  have rest: "min_loop it b as v' best' = Inr (scan_min f as v' best')" for v' best'
    using Cons.prems by (intro Cons.IH) auto
  show ?case by (simp add: s rest)
qed

lemma scan_max_IntV:
  "\<exists>m. scan_max f as (IntV x) best =
         (IntV m, if m = x then best else find (\<lambda>a. f a = m) as)
       \<and> x \<le> m \<and> (\<forall>a\<in>set as. f a \<le> m) \<and> (x < m \<longrightarrow> (\<exists>a\<in>set as. f a = m))"
proof (induction as arbitrary: x best)
  case Nil
  show ?case by simp
next
  case (Cons a as)
  show ?case
  proof (cases "x < f a")
    case True
    obtain m where m: "scan_max f as (IntV (f a)) (Some a) =
         (IntV m, if m = f a then Some a else find (\<lambda>a. f a = m) as)"
       "f a \<le> m" "\<forall>a\<in>set as. f a \<le> m" "f a < m \<longrightarrow> (\<exists>a\<in>set as. f a = m)"
      using Cons.IH [of "f a" "Some a"] by blast
    show ?thesis
      by (rule exI [of _ m]) (use True m in auto)
  next
    case False
    obtain m where m: "scan_max f as (IntV x) best =
         (IntV m, if m = x then best else find (\<lambda>a. f a = m) as)"
       "x \<le> m" "\<forall>a\<in>set as. f a \<le> m" "x < m \<longrightarrow> (\<exists>a\<in>set as. f a = m)"
      using Cons.IH [of x best] by blast
    show ?thesis
      by (rule exI [of _ m]) (use False m in auto)
  qed
qed

lemma scan_max_NegInf:
  assumes "as \<noteq> []"
  shows "scan_max f as NegInf None =
     (IntV (Max (f ` set as)), find (\<lambda>a. f a = Max (f ` set as)) as)"
proof -
  obtain a as' where as: "as = a # as'" using assms by (cases as) auto
  obtain m where m: "scan_max f as' (IntV (f a)) (Some a) =
         (IntV m, if m = f a then Some a else find (\<lambda>a. f a = m) as')"
       "f a \<le> m" "\<forall>a\<in>set as'. f a \<le> m" "f a < m \<longrightarrow> (\<exists>a\<in>set as'. f a = m)"
    using scan_max_IntV [of f as' "f a" "Some a"] by blast
  have "Max (f ` set as) = m"
  proof (rule Max_eqI)
    show "finite (f ` set as)" by simp
    show "y \<le> m" if "y \<in> f ` set as" for y using that m(2,3) by (auto simp: as)
    show "m \<in> f ` set as" using m(2,4) by (cases "f a = m") (auto simp: as)
  qed
  then show ?thesis using m(1) by (auto simp: as)
qed

lemma scan_min_IntV:
  "\<exists>m. scan_min f as (IntV x) best =
         (IntV m, if m = x then best else find (\<lambda>a. f a = m) as)
       \<and> m \<le> x \<and> (\<forall>a\<in>set as. m \<le> f a) \<and> (m < x \<longrightarrow> (\<exists>a\<in>set as. f a = m))"
proof (induction as arbitrary: x best)
  case Nil
  show ?case by simp
next
  case (Cons a as)
  show ?case
  proof (cases "f a < x")
    case True
    obtain m where m: "scan_min f as (IntV (f a)) (Some a) =
         (IntV m, if m = f a then Some a else find (\<lambda>a. f a = m) as)"
       "m \<le> f a" "\<forall>a\<in>set as. m \<le> f a" "m < f a \<longrightarrow> (\<exists>a\<in>set as. f a = m)"
      using Cons.IH [of "f a" "Some a"] by blast
    show ?thesis
      by (rule exI [of _ m]) (use True m in auto)
  next
    case False
    obtain m where m: "scan_min f as (IntV x) best =
         (IntV m, if m = x then best else find (\<lambda>a. f a = m) as)"
       "m \<le> x" "\<forall>a\<in>set as. m \<le> f a" "m < x \<longrightarrow> (\<exists>a\<in>set as. f a = m)"
      using Cons.IH [of x best] by blast
    show ?thesis
      by (rule exI [of _ m]) (use False m in auto)
  qed
qed

lemma scan_min_PosInf:
  assumes "as \<noteq> []"
  shows "scan_min f as PosInf None =
     (IntV (Min (f ` set as)), find (\<lambda>a. f a = Min (f ` set as)) as)"
proof -
  obtain a as' where as: "as = a # as'" using assms by (cases as) auto
  obtain m where m: "scan_min f as' (IntV (f a)) (Some a) =
         (IntV m, if m = f a then Some a else find (\<lambda>a. f a = m) as')"
       "m \<le> f a" "\<forall>a\<in>set as'. m \<le> f a" "m < f a \<longrightarrow> (\<exists>a\<in>set as'. f a = m)"
    using scan_min_IntV [of f as' "f a" "Some a"] by blast
  have "Min (f ` set as) = m"
  proof (rule Min_eqI)
    show "finite (f ` set as)" by simp
    show "m \<le> y" if "y \<in> f ` set as" for y using that m(2,3) by (auto simp: as)
    show "m \<in> f ` set as" using m(2,4) by (cases "f a = m") (auto simp: as)
  qed
  then show ?thesis using m(1) by (auto simp: as)
qed


lemma actions_subset_cells: "actions b \<subseteq> set cells"
  by (auto simp: actions_def)

lemma iteration_order_actions:
  "iteration_order it \<Longrightarrow> set (it (actions b)) = actions b \<and> distinct (it (actions b))"
  using actions_subset_cells [of b] by (simp add: iteration_order_def)

lemma not_terminal_actions: "\<not> terminal b \<Longrightarrow> actions b \<noteq> {}"
  by (auto simp: terminal_def)

lemma result_in_actions:
  "a \<in> actions b \<Longrightarrow> result b a = Inr (board_set b a (Some (player b)))"
  by (simp add: result_def)

lemma search_char:
  assumes it: "iteration_order it"
  shows "max_value it b =
      (if terminal b then Inr (IntV (utility b), None)
       else Inr (IntV (Max (min_value_after it b ` actions b)),
                 find (\<lambda>a. min_value_after it b a = Max (min_value_after it b ` actions b))
                   (it (actions b))))
    \<and> min_value it b =
      (if terminal b then Inr (IntV (utility b), None)
       else Inr (IntV (Min (max_value_after it b ` actions b)),
                 find (\<lambda>a. max_value_after it b a = Min (max_value_after it b ` actions b))
                   (it (actions b))))"
proof (induction "count_empty b" arbitrary: b rule: less_induct)
  case less
  show ?case
  proof (cases "terminal b")
    case True
    then show ?thesis by (simp add: max_value.simps min_value.simps)
  next
    case False
    let ?as = "it (actions b)"
    have set_as: "set ?as = actions b"
      using iteration_order_actions [OF it] by simp
    have ne: "?as \<noteq> []"
      using not_terminal_actions [OF False] set_as by auto
    have child: "\<exists>b'. result b a = Inr b'
        \<and> (\<exists>a'. min_value it b' = Inr (IntV (min_value_after it b a), a'))
        \<and> (\<exists>a'. max_value it b' = Inr (IntV (max_value_after it b a), a'))"
      if "a \<in> set ?as" for a
    proof -
      let ?b' = "board_set b a (Some (player b))"
      have r: "result b a = Inr ?b'"
        using that set_as by (simp add: result_in_actions)
      have "count_empty ?b' < count_empty b"
        using r by (rule result_count_empty)
      from less [OF this] show ?thesis
        by (auto simp: r min_value_after_def max_value_after_def value_of_def)
    qed
    have "max_value it b = max_loop it b ?as NegInf None"
      using False by (simp add: max_value.simps)
    also have "\<dots> = Inr (scan_max (min_value_after it b) ?as NegInf None)"
      by (rule max_loop_scan) (use child in blast)
    finally have mx: "max_value it b =
        Inr (IntV (Max (min_value_after it b ` actions b)),
             find (\<lambda>a. min_value_after it b a = Max (min_value_after it b ` actions b)) ?as)"
      by (simp add: scan_max_NegInf [OF ne] set_as)
    have "min_value it b = min_loop it b ?as PosInf None"
      using False by (simp add: min_value.simps)
    also have "\<dots> = Inr (scan_min (max_value_after it b) ?as PosInf None)"
      by (rule min_loop_scan) (use child in blast)
    finally have mn: "min_value it b =
        Inr (IntV (Min (max_value_after it b ` actions b)),
             find (\<lambda>a. max_value_after it b a = Min (max_value_after it b ` actions b)) ?as)"
      by (simp add: scan_min_PosInf [OF ne] set_as)
    show ?thesis using False mx mn by simp
  qed
qed


text \<open>\<open>first_with P xs a\<close>: \<open>a\<close> is the first element of \<open>xs\<close>, in list order, with \<open>P\<close>.\<close>

definition first_with :: "('a \<Rightarrow> bool) \<Rightarrow> 'a list \<Rightarrow> 'a \<Rightarrow> bool" where
  "first_with P xs a \<longleftrightarrow> (\<exists>i<length xs. xs ! i = a \<and> P a \<and> (\<forall>j<i. \<not> P (xs ! j)))"

text \<open>X at (0,0) and (0,1), O at (1,0), O to move.\<close>

definition b4 :: board where
  "b4 = Board (Row (Some PlayerX) (Some PlayerX) None)
              (Row (Some PlayerO) None None)
              (Row None None None)"

lemma iteration_order_row_major: "iteration_order row_major"
  unfolding iteration_order_def row_major_def
  by (auto simp: distinct_cells)

lemma iteration_order_reverse_row_major: "iteration_order reverse_row_major"
  unfolding iteration_order_def reverse_row_major_def
  by (auto simp: distinct_cells)

lemma find_first_with: "find P xs = Some a \<longleftrightarrow> first_with P xs a"
  unfolding first_with_def find_Some_iff by auto

lemma find_attained:
  assumes "xs \<noteq> []" and m: "m = Max (f ` set xs) \<or> m = Min (f ` set xs)"
  shows "\<exists>a. find (\<lambda>a. f a = m) xs = Some a \<and> a \<in> set xs \<and> f a = m"
proof -
  have "m \<in> f ` set xs"
    using m assms(1) Max_in [of "f ` set xs"] Min_in [of "f ` set xs"] by auto
  then have "find (\<lambda>a. f a = m) xs \<noteq> None"
    by (auto simp: find_None_iff)
  then obtain a where a: "find (\<lambda>a. f a = m) xs = Some a" by auto
  then have "a \<in> set xs \<and> f a = m"
    by (auto simp: find_Some_iff)
  with a show ?thesis by simp
qed

lemma search_nonterminal:
  assumes it: "iteration_order it" and nt: "\<not> terminal b"
  shows "\<exists>a. max_value it b = Inr (IntV (Max (min_value_after it b ` actions b)), Some a)
           \<and> a \<in> actions b
           \<and> first_with (\<lambda>a. min_value_after it b a = Max (min_value_after it b ` actions b))
                (it (actions b)) a"
    and "\<exists>a. min_value it b = Inr (IntV (Min (max_value_after it b ` actions b)), Some a)
           \<and> a \<in> actions b
           \<and> first_with (\<lambda>a. max_value_after it b a = Min (max_value_after it b ` actions b))
                (it (actions b)) a"
proof -
  have set_as: "set (it (actions b)) = actions b"
    using iteration_order_actions [OF it] by simp
  have ne: "it (actions b) \<noteq> []"
    using not_terminal_actions [OF nt] set_as by auto
  show "\<exists>a. max_value it b = Inr (IntV (Max (min_value_after it b ` actions b)), Some a)
           \<and> a \<in> actions b
           \<and> first_with (\<lambda>a. min_value_after it b a = Max (min_value_after it b ` actions b))
                (it (actions b)) a"
    using find_attained [OF ne, of "Max (min_value_after it b ` actions b)" "min_value_after it b"]
      search_char [OF it, of b] nt
    by (auto simp: set_as find_first_with)
  show "\<exists>a. min_value it b = Inr (IntV (Min (max_value_after it b ` actions b)), Some a)
           \<and> a \<in> actions b
           \<and> first_with (\<lambda>a. max_value_after it b a = Min (max_value_after it b ` actions b))
                (it (actions b)) a"
    using find_attained [OF ne, of "Min (max_value_after it b ` actions b)" "max_value_after it b"]
      search_char [OF it, of b] nt
    by (auto simp: set_as find_first_with)
qed

lemma search_returns:
  assumes it: "iteration_order it"
  shows "\<exists>v a. max_value it b = Inr (IntV v, a)" and "\<exists>v a. min_value it b = Inr (IntV v, a)"
  using search_char [OF it, of b] by (auto split: if_splits)

lemma child_values:
  assumes it: "iteration_order it" and a: "a \<in> actions b"
  shows "\<exists>b' a1 a2. result b a = Inr b'
     \<and> min_value it b' = Inr (IntV (min_value_after it b a), a1)
     \<and> max_value it b' = Inr (IntV (max_value_after it b a), a2)"
  using search_returns [OF it, of "board_set b a (Some (player b))"] a
  by (auto simp: result_in_actions min_value_after_def max_value_after_def value_of_def)

lemma minimax_nonterminal:
  assumes it: "iteration_order it" and nt: "\<not> terminal b"
  shows "\<exists>a. minimax it b = Inr (Some a) \<and> a \<in> actions b"
  using search_nonterminal [OF it nt] by (cases "player b = PlayerX") (auto simp: minimax_def nt)

lemma b4_not_terminal: "\<not> terminal b4"
  by (simp add: terminal_def card_actions count_empty_def b4_def winner_def line3_def cell_at_def)

text \<open>
  C2: on every non-terminal board \<open>minimax\<close> returns an action (not \<^verbatim>\<open>None\<close>, no
  exception) that is a member of \<open>actions board\<close>, so the coordinate of an empty cell;
  this holds for every iteration order of the action set.
\<close>

theorem minimax_returns_legal_action:
  "iteration_order it \<Longrightarrow> \<not> terminal b \<Longrightarrow>
   \<exists>a. minimax it b = Inr (Some a) \<and> a \<in> actions b \<and> cell_at b a = None"
  using minimax_nonterminal [of it b] by (auto simp: actions_iff)

text \<open>The instance at the row-major order and the board \<open>b4\<close>.\<close>

theorem minimax_returns_legal_action_witness:
  "iteration_order row_major \<and> \<not> terminal b4
   \<and> (\<exists>a. minimax row_major b4 = Inr (Some a) \<and> a \<in> actions b4 \<and> cell_at b4 a = None)"
  using minimax_returns_legal_action [OF iteration_order_row_major b4_not_terminal]
  by (simp add: iteration_order_row_major b4_not_terminal)

text \<open>
  C3: on a non-terminal board every action has a value (the value \<open>min_value\<close>, or
  \<open>max_value\<close>, returns on the resulting board); \<open>max_value\<close> returns the maximum of
  these values over all actions together with the first action, in the iteration
  order of \<open>actions board\<close>, whose value is that maximum, and \<open>min_value\<close> returns the
  minimum together with the first action whose value is that minimum.
\<close>

theorem first_best_action_kept:
  "iteration_order it \<Longrightarrow> \<not> terminal b \<Longrightarrow>
   (\<forall>a\<in>actions b. \<exists>b' a1 a2. result b a = Inr b'
       \<and> min_value it b' = Inr (IntV (min_value_after it b a), a1)
       \<and> max_value it b' = Inr (IntV (max_value_after it b a), a2))
   \<and> (\<exists>a. max_value it b = Inr (IntV (Max (min_value_after it b ` actions b)), Some a)
         \<and> first_with (\<lambda>a. min_value_after it b a = Max (min_value_after it b ` actions b))
              (it (actions b)) a)
   \<and> (\<exists>a. min_value it b = Inr (IntV (Min (max_value_after it b ` actions b)), Some a)
         \<and> first_with (\<lambda>a. max_value_after it b a = Min (max_value_after it b ` actions b))
              (it (actions b)) a)"
  using search_nonterminal [of it b] child_values [of it _ b] by blast

lemma b4_action: "(0, 2) \<in> actions b4"
  by (simp add: actions_iff in_cells b4_def cell_at_def)

text \<open>The instance at the row-major order and the board \<open>b4\<close>, with the action (0,2).\<close>

theorem first_best_action_kept_witness:
  "iteration_order row_major \<and> \<not> terminal b4 \<and> (0, 2) \<in> actions b4
   \<and> (\<exists>b' a1 a2. result b4 (0, 2) = Inr b'
       \<and> min_value row_major b' = Inr (IntV (min_value_after row_major b4 (0, 2)), a1)
       \<and> max_value row_major b' = Inr (IntV (max_value_after row_major b4 (0, 2)), a2))
   \<and> (\<exists>a. max_value row_major b4
           = Inr (IntV (Max (min_value_after row_major b4 ` actions b4)), Some a)
         \<and> first_with (\<lambda>a. min_value_after row_major b4 a
                            = Max (min_value_after row_major b4 ` actions b4))
              (row_major (actions b4)) a)
   \<and> (\<exists>a. min_value row_major b4
           = Inr (IntV (Min (max_value_after row_major b4 ` actions b4)), Some a)
         \<and> first_with (\<lambda>a. max_value_after row_major b4 a
                            = Min (max_value_after row_major b4 ` actions b4))
              (row_major (actions b4)) a)"
  using first_best_action_kept [OF iteration_order_row_major b4_not_terminal] b4_action
  by (simp add: iteration_order_row_major b4_not_terminal)

section \<open>Errors\<close>

lemma result_raises_iff:
  "result b a = Inl InvalidAction \<longleftrightarrow>
     \<not> (0 \<le> fst a \<and> fst a \<le> 2 \<and> 0 \<le> snd a \<and> snd a \<le> 2) \<or> cell_at b a \<noteq> None"
proof -
  have "a \<in> set cells \<longleftrightarrow> 0 \<le> fst a \<and> fst a \<le> 2 \<and> 0 \<le> snd a \<and> snd a \<le> 2"
    unfolding in_cells by auto
  then show ?thesis by (auto simp: result_def actions_iff)
qed

lemma minimax_returns:
  assumes it: "iteration_order it"
  shows "\<exists>r. minimax it b = Inr r"
  using search_returns [OF it, of b] by (auto simp: minimax_def)

text \<open>
  C6: \<open>result\<close> raises its exception exactly when the coordinates are out of the range
  0..2 or the target cell is not empty; and for every iteration order of the action
  set, \<open>max_value\<close>, \<open>min_value\<close> and \<open>minimax\<close> never end in that exception.
\<close>

theorem invalid_action_only_from_callers:
  "(result b a = Inl InvalidAction \<longleftrightarrow>
      \<not> (0 \<le> fst a \<and> fst a \<le> 2 \<and> 0 \<le> snd a \<and> snd a \<le> 2) \<or> cell_at b a \<noteq> None)
   \<and> (iteration_order it \<longrightarrow>
        (\<forall>e. max_value it b \<noteq> Inl e \<and> min_value it b \<noteq> Inl e \<and> minimax it b \<noteq> Inl e))"
  using result_raises_iff [of b a] search_returns [of it b] minimax_returns [of it b]
  by auto

text \<open>
  On \<open>b4\<close>: an occupied cell and two coordinates out of range raise, the empty cell
  (0,2) does not, and the row-major search ends without exception.
\<close>

theorem invalid_action_only_from_callers_witness:
  "iteration_order row_major
   \<and> result b4 (0, 0) = Inl InvalidAction
   \<and> result b4 (3, 0) = Inl InvalidAction
   \<and> result b4 (0, - 1) = Inl InvalidAction
   \<and> result b4 (0, 2) \<noteq> Inl InvalidAction
   \<and> (\<forall>e. max_value row_major b4 \<noteq> Inl e \<and> min_value row_major b4 \<noteq> Inl e
          \<and> minimax row_major b4 \<noteq> Inl e)"
  using invalid_action_only_from_callers [of b4 "(0, 0)" row_major]
    invalid_action_only_from_callers [of b4 "(3, 0)" row_major]
    invalid_action_only_from_callers [of b4 "(0, - 1)" row_major]
    invalid_action_only_from_callers [of b4 "(0, 2)" row_major]
  by (simp add: iteration_order_row_major b4_def cell_at_def)

section \<open>Termination\<close>

text \<open>
  Every argument of the four mutually recursive functions is in the accessible part
  of their call relation: the number of empty cells decreases from a loop to the
  search of a successor board, and the list of actions left shrinks inside a loop.
\<close>

lemma search_dom: "All max_value_max_loop_min_value_min_loop_dom"
  by (rule "max_value_max_loop_min_value_min_loop.termination"
        [where R = "measures
        [\<lambda>x. case x of
           Inl (Inl (it, b)) \<Rightarrow> count_empty b
         | Inl (Inr (it, b, as, v, best)) \<Rightarrow> count_empty b
         | Inr (Inl (it, b)) \<Rightarrow> count_empty b
         | Inr (Inr (it, b, as, v, best)) \<Rightarrow> count_empty b,
         \<lambda>x. case x of
           Inl (Inl (it, b)) \<Rightarrow> 1
         | Inl (Inr (it, b, as, v, best)) \<Rightarrow> 0
         | Inr (Inl (it, b)) \<Rightarrow> 1
         | Inr (Inr (it, b, as, v, best)) \<Rightarrow> 0,
         \<lambda>x. case x of
           Inl (Inl (it, b)) \<Rightarrow> 0
         | Inl (Inr (it, b, as, v, best)) \<Rightarrow> length as
         | Inr (Inl (it, b)) \<Rightarrow> 0
         | Inr (Inr (it, b, as, v, best)) \<Rightarrow> length as]"])
     (auto dest: result_count_empty)

text \<open>
  C9: the search terminates on every board. The calls of \<open>max_value\<close> and \<open>min_value\<close>
  are well-founded for every board; every board \<open>result\<close> returns has strictly fewer
  empty cells; and for every iteration order the three functions return a value
  (a finite number and an action, not an exception).
\<close>

theorem search_terminates:
  "max_value_max_loop_min_value_min_loop_dom (Inl (Inl (it, b)))
   \<and> max_value_max_loop_min_value_min_loop_dom (Inr (Inl (it, b)))
   \<and> (\<forall>a b'. result b a = Inr b' \<longrightarrow> card (actions b') < card (actions b))
   \<and> (iteration_order it \<longrightarrow>
        (\<exists>v a. max_value it b = Inr (IntV v, a))
        \<and> (\<exists>v a. min_value it b = Inr (IntV v, a))
        \<and> (\<exists>r. minimax it b = Inr r))"
  using search_dom search_returns [of it b] minimax_returns [of it b]
  by (auto simp: card_actions dest: result_count_empty)

text \<open>The instance at the row-major order and \<open>b4\<close>, with the successor after (0,2).\<close>

theorem search_terminates_witness:
  "iteration_order row_major
   \<and> max_value_max_loop_min_value_min_loop_dom (Inl (Inl (row_major, b4)))
   \<and> max_value_max_loop_min_value_min_loop_dom (Inr (Inl (row_major, b4)))
   \<and> result b4 (0, 2) = Inr (board_set b4 (0, 2) (Some PlayerO))
   \<and> card (actions (board_set b4 (0, 2) (Some PlayerO))) < card (actions b4)
   \<and> (\<exists>v a. max_value row_major b4 = Inr (IntV v, a))
   \<and> (\<exists>v a. min_value row_major b4 = Inr (IntV v, a))
   \<and> (\<exists>r. minimax row_major b4 = Inr r)"
proof -
  have r: "result b4 (0, 2) = Inr (board_set b4 (0, 2) (Some PlayerO))"
    by (simp add: result_in_actions b4_action) (simp add: player_def b4_def)
  show ?thesis
    using search_terminates [of row_major b4] r
    by (simp add: iteration_order_row_major)
qed

section \<open>The board \<open>result\<close> returns\<close>

lemma result_frame:
  assumes "a \<in> actions b"
  shows "\<exists>b'. result b a = Inr b' \<and> cell_at b' a = Some (player b)
           \<and> (\<forall>a'\<in>set cells. a' \<noteq> a \<longrightarrow> cell_at b' a' = cell_at b a')"
  using assms by (auto simp: result_in_actions actions_iff cell_at_board_set)

section \<open>Positions a player can hold\<close>

text \<open>
  The value of a position does not depend on the iteration order, and it is
  bounded by exhibiting a strategy: \<open>holds n side k p b\<close> checks, on a board \<open>b\<close> with
  \<open>n\<close> empty cells and \<open>p\<close> to move, that \<open>side\<close> can force the final utility to be at
  least \<open>k\<close> (for X) or at most \<open>k\<close> (for O): some action of \<open>side\<close> and every action
  of the opponent keep the bound. The actions are tried in the fixed order \<open>pref\<close>.
\<close>

fun other :: "player \<Rightarrow> player" where
  "other PlayerX = PlayerO"
| "other PlayerO = PlayerX"

fun score :: "cell \<Rightarrow> int" where
  "score (Some PlayerX) = 1"
| "score (Some PlayerO) = - 1"
| "score None = 0"

fun leaf_ok :: "player \<Rightarrow> int \<Rightarrow> int \<Rightarrow> bool" where
  "leaf_ok PlayerX k u = (k \<le> u)"
| "leaf_ok PlayerO k u = (u \<le> k)"

definition pref :: "action list" where
  "pref = [(1, 1), (2, 0), (0, 2), (2, 2), (0, 0), (2, 1), (0, 1), (1, 2), (1, 0)]"

function holds :: "nat \<Rightarrow> player \<Rightarrow> int \<Rightarrow> player \<Rightarrow> board \<Rightarrow> bool"
  and holds_any :: "nat \<Rightarrow> player \<Rightarrow> int \<Rightarrow> player \<Rightarrow> board \<Rightarrow> action list \<Rightarrow> bool"
  and holds_all :: "nat \<Rightarrow> player \<Rightarrow> int \<Rightarrow> player \<Rightarrow> board \<Rightarrow> action list \<Rightarrow> bool"
where
  "holds 0 side k p b = leaf_ok side k (score (winner b))"
| "holds (Suc n) side k p b =
     (case winner b of
        Some w \<Rightarrow> leaf_ok side k (score (Some w))
      | None \<Rightarrow> if p = side then holds_any n side k p b pref else holds_all n side k p b pref)"
| "holds_any n side k p b [] = False"
| "holds_any n side k p b (a # as) =
     (if cell_at b a = None
      then (if holds n side k (other p) (board_set b a (Some p)) then True
            else holds_any n side k p b as)
      else holds_any n side k p b as)"
| "holds_all n side k p b [] = True"
| "holds_all n side k p b (a # as) =
     (if cell_at b a = None
      then (if holds n side k (other p) (board_set b a (Some p)) then holds_all n side k p b as
            else False)
      else holds_all n side k p b as)"
  by pat_completeness simp_all
termination
  by (relation "measures
        [\<lambda>x. case x of Inl (n, _) \<Rightarrow> n | Inr (Inl (n, _)) \<Rightarrow> n | Inr (Inr (n, _)) \<Rightarrow> n,
         \<lambda>x. case x of Inl _ \<Rightarrow> 0 | Inr (Inl (_, _, _, _, _, as)) \<Rightarrow> Suc (length as)
                     | Inr (Inr (_, _, _, _, _, as)) \<Rightarrow> Suc (length as)]")
     auto

text \<open>
  The value the search computes at a position where \<open>p\<close> moves, and the boards on
  which the marks are consistent with \<open>p\<close> being the player to move.
\<close>

definition node_value :: "iteration \<Rightarrow> player \<Rightarrow> board \<Rightarrow> int" where
  "node_value it p b = value_of (if p = PlayerX then max_value it b else min_value it b)"

definition turn_of :: "board \<Rightarrow> player \<Rightarrow> bool" where
  "turn_of b p \<longleftrightarrow>
     (if p = PlayerX then count_cells b (Some PlayerX) = count_cells b (Some PlayerO)
      else count_cells b (Some PlayerX) = Suc (count_cells b (Some PlayerO)))"

declare holds.simps(2) [simp del]

lemma utility_score: "utility b = score (winner b)"
  by (cases "winner b" rule: option.exhaust; simp add: utility_def)
     (metis player.exhaust score.simps(1,2))

lemma set_pref: "set pref = set cells"
  by (simp add: pref_def cells_def) blast

lemma node_value_terminal:
  "iteration_order it \<Longrightarrow> terminal b \<Longrightarrow> node_value it p b = utility b"
  using search_char [of it b] by (simp add: node_value_def value_of_def)

lemma node_value_after:
  assumes "a \<in> actions b"
  shows "min_value_after it b a = node_value it PlayerO (board_set b a (Some (player b)))"
    and "max_value_after it b a = node_value it PlayerX (board_set b a (Some (player b)))"
  using assms
  by (simp_all add: min_value_after_def max_value_after_def node_value_def result_in_actions)

lemma node_value_PlayerX:
  assumes "iteration_order it" "\<not> terminal b"
  shows "node_value it PlayerX b =
     Max ((\<lambda>a. node_value it PlayerO (board_set b a (Some (player b)))) ` actions b)"
proof -
  have "node_value it PlayerX b = Max (min_value_after it b ` actions b)"
    using search_char [OF assms(1), of b] assms(2) by (simp add: node_value_def value_of_def)
  also have "min_value_after it b ` actions b =
      (\<lambda>a. node_value it PlayerO (board_set b a (Some (player b)))) ` actions b"
    by (rule image_cong) (simp_all add: node_value_after)
  finally show ?thesis .
qed

lemma node_value_PlayerO:
  assumes "iteration_order it" "\<not> terminal b"
  shows "node_value it PlayerO b =
     Min ((\<lambda>a. node_value it PlayerX (board_set b a (Some (player b)))) ` actions b)"
proof -
  have "node_value it PlayerO b = Min (max_value_after it b ` actions b)"
    using search_char [OF assms(1), of b] assms(2) by (simp add: node_value_def value_of_def)
  also have "max_value_after it b ` actions b =
      (\<lambda>a. node_value it PlayerX (board_set b a (Some (player b)))) ` actions b"
    by (rule image_cong) (simp_all add: node_value_after)
  finally show ?thesis .
qed

lemma turn_of_player: "turn_of b p \<Longrightarrow> player b = p"
  by (cases p) (auto simp: turn_of_def player_def)

lemma row_count_row_set_mark:
  "j \<in> {0, 1, 2} \<Longrightarrow> row_get r j = None \<Longrightarrow>
   row_count (row_set r j (Some p)) (Some q) = row_count r (Some q) + (if p = q then 1 else 0)"
  by (cases r) auto

lemma count_cells_board_set:
  "a \<in> set cells \<Longrightarrow> cell_at b a = None \<Longrightarrow>
   count_cells (board_set b a (Some p)) (Some q) =
     count_cells b (Some q) + (if p = q then 1 else 0)"
  unfolding in_cells cell_at_def
  using row_count_row_set_mark [of "snd a" _ p q]
  by (cases b) (auto simp del: row_count.simps row_set.simps row_get.simps)

lemma turn_of_step:
  "turn_of b p \<Longrightarrow> a \<in> actions b \<Longrightarrow> turn_of (board_set b a (Some p)) (other p)"
  by (cases p) (auto simp: turn_of_def actions_iff count_cells_board_set)

lemma holds_any_iff:
  "holds_any n side k p b as \<longleftrightarrow>
     (\<exists>a\<in>set as. cell_at b a = None \<and> holds n side k (other p) (board_set b a (Some p)))"
  by (induction as) auto

lemma holds_all_iff:
  "holds_all n side k p b as \<longleftrightarrow>
     (\<forall>a\<in>set as. cell_at b a = None \<longrightarrow> holds n side k (other p) (board_set b a (Some p)))"
  by (induction as) auto

lemma holds_sound:
  assumes it: "iteration_order it"
  shows "holds n side k p b \<Longrightarrow> count_empty b = n \<Longrightarrow> turn_of b p \<Longrightarrow>
         leaf_ok side k (node_value it p b)"
proof (induction n arbitrary: p b)
  case 0
  then have "terminal b" by (simp add: terminal_def card_actions)
  with 0 it show ?case by (simp add: node_value_terminal utility_score)
next
  case (Suc n)
  show ?case
  proof (cases "winner b")
    case (Some w)
    then have "terminal b" by (simp add: terminal_def)
    with Suc.prems(1) Some it show ?thesis
      by (simp add: node_value_terminal utility_score holds.simps(2))
  next
    case None
    have nt: "\<not> terminal b"
      using None Suc.prems(2) by (simp add: terminal_def card_actions)
    have pl: "player b = p" using Suc.prems(3) by (rule turn_of_player)
    have fin: "finite (actions b)" "actions b \<noteq> {}"
      using not_terminal_actions [OF nt] by (simp_all add: actions_def)
    let ?c = "\<lambda>a. board_set b a (Some p)"
    have IH: "leaf_ok side k (node_value it (other p) (?c a))"
      if "a \<in> actions b" "holds n side k (other p) (?c a)" for a
    proof (rule Suc.IH [OF that(2)])
      show "count_empty (?c a) = n"
        using count_empty_board_set [of a b p] that(1) Suc.prems(2) by (simp add: actions_iff)
      show "turn_of (?c a) (other p)"
        using Suc.prems(3) that(1) by (rule turn_of_step)
    qed
    show ?thesis
    proof (cases "p = side")
      case True
      then have "holds_any n side k p b pref"
        using Suc.prems(1) None by (simp add: holds.simps(2))
      then obtain a where a: "a \<in> actions b" "holds n side k (other p) (?c a)"
        by (auto simp: holds_any_iff set_pref actions_iff)
      note ok = IH [OF a]
      show ?thesis
      proof (cases p)
        case PlayerX
        have "node_value it PlayerO (?c a) \<le> node_value it PlayerX b"
          unfolding node_value_PlayerX [OF it nt] pl
          by (rule Max_ge) (use fin a in auto)
        with ok True PlayerX show ?thesis by simp
      next
        case PlayerO
        have "node_value it PlayerO b \<le> node_value it PlayerX (?c a)"
          unfolding node_value_PlayerO [OF it nt] pl
          by (rule Min_le) (use fin a in auto)
        with ok True PlayerO show ?thesis by simp
      qed
    next
      case False
      then have "holds_all n side k p b pref"
        using Suc.prems(1) None by (simp add: holds.simps(2))
      then have all: "leaf_ok side k (node_value it (other p) (?c a))" if "a \<in> actions b" for a
        using that IH [of a] by (auto simp: holds_all_iff set_pref actions_iff)
      show ?thesis
      proof (cases p)
        case PlayerX
        then have side: "side = PlayerO" using False by (cases side) auto
        have "node_value it PlayerX b \<le> k"
          unfolding node_value_PlayerX [OF it nt] pl
          using all fin by (simp add: PlayerX side)
        then show ?thesis by (simp add: PlayerX side)
      next
        case PlayerO
        then have side: "side = PlayerX" using False by (cases side) auto
        have "k \<le> node_value it PlayerO b"
          unfolding node_value_PlayerO [OF it nt] pl
          using all fin by (simp add: PlayerO side)
        then show ?thesis by (simp add: PlayerO side)
      qed
    qed
  qed
qed


text \<open>The board functions on a board written out cell by cell.\<close>

lemma winner_Board:
  "winner (Board (Row a b c) (Row d e f) (Row g h i)) =
     (if line3 a b c then a else if line3 d e f then d else if line3 g h i then g
      else if line3 a d g then a else if line3 b e h then b else if line3 c f i then c
      else if line3 a e i then a else if line3 c e g then c else None)"
  by (simp add: winner_def cell_at_def)

lemma line3_simps:
  "line3 None y z = False"
  "line3 (Some p) None z = False"
  "line3 (Some p) (Some q) None = False"
  "line3 (Some p) (Some q) (Some r) = (p = q \<and> q = r)"
  by (auto simp: line3_def)

lemma cell_at_Board:
  "cell_at (Board (Row a b c) (Row d e f) (Row g h i)) (0, 0) = a"
  "cell_at (Board (Row a b c) (Row d e f) (Row g h i)) (0, 1) = b"
  "cell_at (Board (Row a b c) (Row d e f) (Row g h i)) (0, 2) = c"
  "cell_at (Board (Row a b c) (Row d e f) (Row g h i)) (1, 0) = d"
  "cell_at (Board (Row a b c) (Row d e f) (Row g h i)) (1, 1) = e"
  "cell_at (Board (Row a b c) (Row d e f) (Row g h i)) (1, 2) = f"
  "cell_at (Board (Row a b c) (Row d e f) (Row g h i)) (2, 0) = g"
  "cell_at (Board (Row a b c) (Row d e f) (Row g h i)) (2, 1) = h"
  "cell_at (Board (Row a b c) (Row d e f) (Row g h i)) (2, 2) = i"
  by (simp_all add: cell_at_def)

lemma board_set_Board:
  "board_set (Board (Row a b c) (Row d e f) (Row g h i)) (0, 0) v
     = Board (Row v b c) (Row d e f) (Row g h i)"
  "board_set (Board (Row a b c) (Row d e f) (Row g h i)) (0, 1) v
     = Board (Row a v c) (Row d e f) (Row g h i)"
  "board_set (Board (Row a b c) (Row d e f) (Row g h i)) (0, 2) v
     = Board (Row a b v) (Row d e f) (Row g h i)"
  "board_set (Board (Row a b c) (Row d e f) (Row g h i)) (1, 0) v
     = Board (Row a b c) (Row v e f) (Row g h i)"
  "board_set (Board (Row a b c) (Row d e f) (Row g h i)) (1, 1) v
     = Board (Row a b c) (Row d v f) (Row g h i)"
  "board_set (Board (Row a b c) (Row d e f) (Row g h i)) (1, 2) v
     = Board (Row a b c) (Row d e v) (Row g h i)"
  "board_set (Board (Row a b c) (Row d e f) (Row g h i)) (2, 0) v
     = Board (Row a b c) (Row d e f) (Row v h i)"
  "board_set (Board (Row a b c) (Row d e f) (Row g h i)) (2, 1) v
     = Board (Row a b c) (Row d e f) (Row g v i)"
  "board_set (Board (Row a b c) (Row d e f) (Row g h i)) (2, 2) v
     = Board (Row a b c) (Row d e f) (Row g h v)"
  by simp_all

lemma leaf_ok_score:
  "leaf_ok PlayerX 0 (score None) = True"
  "leaf_ok PlayerX 0 (score (Some PlayerX)) = True"
  "leaf_ok PlayerX 0 (score (Some PlayerO)) = False"
  "leaf_ok PlayerO 0 (score None) = True"
  "leaf_ok PlayerO 0 (score (Some PlayerX)) = False"
  "leaf_ok PlayerO 0 (score (Some PlayerO)) = True"
  "leaf_ok PlayerX 1 (score None) = False"
  "leaf_ok PlayerX 1 (score (Some PlayerX)) = True"
  "leaf_ok PlayerX 1 (score (Some PlayerO)) = False"
  by simp_all

lemmas holds_eval =
  holds.simps holds_any.simps holds_all.simps other.simps pref_def
  winner_Board line3_simps cell_at_Board board_set_Board leaf_ok_score
  if_True if_False option.case option.distinct option.inject player.distinct simp_thms

text \<open>
  Three strategies, checked by rewriting: O holds the empty board to a draw, X holds
  a draw after each of the nine openings, and X wins from \<open>b4\<close> whatever O plays.
\<close>

lemma o_holds_empty_board:
  "holds (Suc (Suc (Suc (Suc (Suc (Suc (Suc (Suc (Suc 0))))))))) PlayerO 0 PlayerX empty_board"
  unfolding empty_board_def
  by (simp only: holds_eval cong: if_weak_cong option.case_cong_weak)

lemma x_holds_after_every_opening:
  "holds_all (Suc (Suc (Suc (Suc (Suc (Suc (Suc (Suc 0)))))))) PlayerX 0 PlayerX empty_board pref"
  unfolding empty_board_def
  by (simp only: holds_eval cong: if_weak_cong option.case_cong_weak)

lemma x_wins_b4:
  "holds (Suc (Suc (Suc (Suc (Suc (Suc 0)))))) PlayerX 1 PlayerO b4"
  unfolding b4_def
  by (simp only: holds_eval cong: if_weak_cong option.case_cong_weak)



section \<open>Equal values: the first action in iteration order\<close>

text \<open>
  A third iteration order. It lists the coordinates by \<^verbatim>\<open>hash((i, j)) % 32\<close> as computed
  by CPython 3.11 on a 64-bit build, which is the order observed there when iterating
  the sets of nine and of six coordinates that \<^verbatim>\<open>actions\<close> builds for the boards
  \<open>empty_board\<close> and \<open>b4\<close>.
\<close>

definition slot_order :: iteration where
  "slot_order S =
     [a \<leftarrow> [(0, 1), (1, 2), (2, 1), (0, 0), (1, 1), (2, 0), (0, 2), (2, 2), (1, 0)]. a \<in> S]"

lemma iteration_order_filter:
  "set xs = set cells \<Longrightarrow> distinct xs \<Longrightarrow> iteration_order (\<lambda>S. [a \<leftarrow> xs. a \<in> S])"
  unfolding iteration_order_def by auto

lemma iteration_order_slot_order: "iteration_order slot_order"
proof -
  have "set [(0, 1), (1, 2), (2, 1), (0, 0), (1, 1), (2, 0), (0, 2), (2, 2), (1, 0)] = set cells"
    by (simp add: cells_def) blast
  moreover have "distinct ([(0, 1), (1, 2), (2, 1), (0, 0), (1, 1), (2, 0), (0, 2), (2, 2), (1, 0)] :: action list)"
    by simp
  ultimately have "iteration_order
      (\<lambda>S. [a \<leftarrow> [(0, 1), (1, 2), (2, 1), (0, 0), (1, 1), (2, 0), (0, 2), (2, 2), (1, 0)]. a \<in> S])"
    by (rule iteration_order_filter)
  then show ?thesis by (simp add: slot_order_def [abs_def])
qed

lemma node_value_range:
  assumes it: "iteration_order it"
  shows "- 1 \<le> node_value it p b \<and> node_value it p b \<le> 1"
proof (induction "count_empty b" arbitrary: b p rule: less_induct)
  case less
  show ?case
  proof (cases "terminal b")
    case True
    then show ?thesis
      using it by (simp add: node_value_terminal utility_def Let_def)
  next
    case False
    have fin: "finite (actions b)" "actions b \<noteq> {}"
      using not_terminal_actions [OF False] by (simp_all add: actions_def)
    have child: "- 1 \<le> node_value it q (board_set b a (Some (player b)))
        \<and> node_value it q (board_set b a (Some (player b))) \<le> 1" if "a \<in> actions b" for a q
      by (rule less) (use that count_empty_board_set [of a b "player b"] in \<open>simp add: actions_iff\<close>)
    show ?thesis
    proof (cases p)
      case PlayerX
      have "Max ((\<lambda>a. node_value it PlayerO (board_set b a (Some (player b)))) ` actions b)
          \<in> (\<lambda>a. node_value it PlayerO (board_set b a (Some (player b)))) ` actions b"
        by (rule Max_in) (use fin in auto)
      then show ?thesis
        using child unfolding PlayerX node_value_PlayerX [OF it False] by auto
    next
      case PlayerO
      have "Min ((\<lambda>a. node_value it PlayerX (board_set b a (Some (player b)))) ` actions b)
          \<in> (\<lambda>a. node_value it PlayerX (board_set b a (Some (player b)))) ` actions b"
        by (rule Min_in) (use fin in auto)
      then show ?thesis
        using child unfolding PlayerO node_value_PlayerO [OF it False] by auto
    qed
  qed
qed

lemma first_with_all:
  assumes "first_with P xs a" "\<forall>x\<in>set xs. P x"
  shows "a = hd xs"
proof -
  obtain i where i: "i < length xs" "xs ! i = a" "\<forall>j<i. \<not> P (xs ! j)"
    using assms(1) by (auto simp: first_with_def)
  have "i = 0"
  proof (rule ccontr)
    assume "i \<noteq> 0"
    then have "0 < i" by simp
    with i(1,3) assms(2) show False by (metis nth_mem order.strict_trans)
  qed
  with i show ?thesis by (cases xs) auto
qed

lemma equal_values_first_action:
  assumes it: "iteration_order it" and nt: "\<not> terminal b"
  shows "(\<forall>a\<in>actions b. min_value_after it b a = v) \<Longrightarrow>
           max_value it b = Inr (IntV v, Some (hd (it (actions b))))"
    and "(\<forall>a\<in>actions b. max_value_after it b a = v) \<Longrightarrow>
           min_value it b = Inr (IntV v, Some (hd (it (actions b))))"
proof -
  have set_as: "set (it (actions b)) = actions b"
    using iteration_order_actions [OF it] by simp
  have ne: "actions b \<noteq> {}" "finite (actions b)"
    using not_terminal_actions [OF nt] by (simp_all add: actions_def)
  {
    assume all: "\<forall>a\<in>actions b. min_value_after it b a = v"
    then have "min_value_after it b ` actions b = {v}" using ne by auto
    then have M: "Max (min_value_after it b ` actions b) = v" by simp
    obtain a where a: "max_value it b = Inr (IntV v, Some a)"
      "first_with (\<lambda>a. min_value_after it b a = v) (it (actions b)) a"
      using search_nonterminal(1) [OF it nt] unfolding M by blast
    have "a = hd (it (actions b))"
      by (rule first_with_all [OF a(2)]) (simp add: set_as all)
    with a show "max_value it b = Inr (IntV v, Some (hd (it (actions b))))" by simp
  }
  {
    assume all: "\<forall>a\<in>actions b. max_value_after it b a = v"
    then have "max_value_after it b ` actions b = {v}" using ne by auto
    then have M: "Min (max_value_after it b ` actions b) = v" by simp
    obtain a where a: "min_value it b = Inr (IntV v, Some a)"
      "first_with (\<lambda>a. max_value_after it b a = v) (it (actions b)) a"
      using search_nonterminal(2) [OF it nt] unfolding M by blast
    have "a = hd (it (actions b))"
      by (rule first_with_all [OF a(2)]) (simp add: set_as all)
    with a show "min_value it b = Inr (IntV v, Some (hd (it (actions b))))" by simp
  }
qed

lemma b4_facts:
  "count_empty b4 = Suc (Suc (Suc (Suc (Suc (Suc 0)))))" "turn_of b4 PlayerO" "player b4 = PlayerO"
  by (simp_all add: b4_def count_empty_def turn_of_def player_def)

lemma b4_all_lost:
  assumes it: "iteration_order it" and a: "a \<in> actions b4"
  shows "max_value_after it b4 a = 1"
proof -
  have fin: "finite (actions b4)" "actions b4 \<noteq> {}"
    using not_terminal_actions [OF b4_not_terminal] by (simp_all add: actions_def)
  have "1 \<le> node_value it PlayerO b4"
    using holds_sound [OF it x_wins_b4 b4_facts(1,2)] by simp
  also have "node_value it PlayerO b4 \<le> node_value it PlayerX (board_set b4 a (Some (player b4)))"
    unfolding node_value_PlayerO [OF it b4_not_terminal]
    by (rule Min_le) (use fin a in auto)
  finally have "1 \<le> max_value_after it b4 a"
    by (simp add: node_value_after [OF a])
  moreover have "max_value_after it b4 a \<le> 1"
    using node_value_range [OF it] by (simp add: node_value_after [OF a])
  ultimately show ?thesis by simp
qed

lemma minimax_b4:
  assumes it: "iteration_order it"
  shows "min_value it b4 = Inr (IntV 1, Some (hd (it (actions b4))))"
    and "minimax it b4 = Inr (Some (hd (it (actions b4))))"
proof -
  show m: "min_value it b4 = Inr (IntV 1, Some (hd (it (actions b4))))"
    by (rule equal_values_first_action(2) [OF it b4_not_terminal])
       (simp add: b4_all_lost [OF it])
  show "minimax it b4 = Inr (Some (hd (it (actions b4))))"
    by (simp add: minimax_def b4_not_terminal b4_facts(3) m)
qed

lemma actions_b4: "actions b4 = {(0, 2), (1, 1), (1, 2), (2, 0), (2, 1), (2, 2)}"
  by (simp add: actions_def cells_def b4_def cell_at_def)

lemma actions_empty_board: "actions empty_board = set cells"
  by (simp add: actions_def cells_def empty_board_def cell_at_def)

lemma empty_board_facts:
  "count_empty empty_board = Suc (Suc (Suc (Suc (Suc (Suc (Suc (Suc (Suc 0))))))))"
  "turn_of empty_board PlayerX" "player empty_board = PlayerX"
  by (simp_all add: empty_board_def count_empty_def turn_of_def player_def)

lemma openings_all_drawn:
  assumes it: "iteration_order it" and a: "a \<in> actions empty_board"
  shows "min_value_after it empty_board a = 0"
proof -
  let ?c = "board_set empty_board a (Some PlayerX)"
  have fin: "finite (actions empty_board)" "actions empty_board \<noteq> {}"
    using not_terminal_actions [OF terminal_empty_board] by (simp_all add: actions_def)
  have val: "min_value_after it empty_board a = node_value it PlayerO ?c"
    using node_value_after(1) [OF a] by (simp add: empty_board_facts(3))
  have "node_value it PlayerO ?c \<le> node_value it PlayerX empty_board"
    unfolding node_value_PlayerX [OF it terminal_empty_board] empty_board_facts(3)
    by (rule Max_ge) (use fin a in auto)
  also have "node_value it PlayerX empty_board \<le> 0"
    using holds_sound [OF it o_holds_empty_board empty_board_facts(1,2)] by simp
  finally have le: "node_value it PlayerO ?c \<le> 0" .
  have "holds (Suc (Suc (Suc (Suc (Suc (Suc (Suc (Suc 0)))))))) PlayerX 0 PlayerO ?c"
    using x_holds_after_every_opening a
    unfolding holds_all_iff by (simp add: set_pref actions_iff)
  moreover have "count_empty ?c = Suc (Suc (Suc (Suc (Suc (Suc (Suc (Suc 0)))))))"
    using count_empty_board_set [of a empty_board PlayerX] a empty_board_facts(1)
    by (simp add: actions_iff)
  moreover have "turn_of ?c PlayerO"
    using turn_of_step [OF empty_board_facts(2) a] by simp
  ultimately have "0 \<le> node_value it PlayerO ?c"
    using holds_sound [OF it, of _ PlayerX 0 PlayerO ?c] by simp
  with le val show ?thesis by simp
qed

lemma minimax_empty_board:
  assumes it: "iteration_order it"
  shows "max_value it empty_board = Inr (IntV 0, Some (hd (it (actions empty_board))))"
    and "minimax it empty_board = Inr (Some (hd (it (actions empty_board))))"
proof -
  show m: "max_value it empty_board = Inr (IntV 0, Some (hd (it (actions empty_board))))"
    by (rule equal_values_first_action(1) [OF it terminal_empty_board])
       (simp add: openings_all_drawn [OF it])
  show "minimax it empty_board = Inr (Some (hd (it (actions empty_board))))"
    by (simp add: minimax_def terminal_empty_board empty_board_facts(3) m)
qed

lemma slot_order_b4: "hd (slot_order (actions b4)) = (1, 2)"
  by (simp add: actions_b4 slot_order_def)

lemma row_major_b4: "hd (row_major (actions b4)) = (0, 2)"
  by (simp add: actions_b4 row_major_def cells_def)

lemma slot_order_empty_board: "hd (slot_order (actions empty_board)) = (0, 1)"
  by (simp add: actions_empty_board slot_order_def cells_def)

lemma row_major_empty_board: "hd (row_major (actions empty_board)) = (0, 0)"
  by (simp add: actions_empty_board row_major_def cells_def)



text \<open>
  C4 as stated (on \<open>b4\<close> \<open>minimax\<close> returns exactly (0,2)) fails: every action of O on
  \<open>b4\<close> has value 1, because after the block at (0,2) X wins with (1,1), so \<open>minimax\<close>
  returns whichever action the iteration comes to first. With \<open>slot_order\<close> that is
  (1,2), which does not block.
\<close>

theorem minimax_b4_need_not_block:
  "iteration_order slot_order \<and> player b4 = PlayerO \<and> \<not> terminal b4
   \<and> minimax slot_order b4 = Inr (Some (1, 2))
   \<and> minimax slot_order b4 \<noteq> Inr (Some (0, 2))"
  using minimax_b4(2) [OF iteration_order_slot_order]
  by (simp add: iteration_order_slot_order slot_order_b4 b4_facts(3) b4_not_terminal)

text \<open>
  C4, amended: on \<open>b4\<close> every action of O has the value 1, \<open>min_value\<close> returns 1 with
  the first action in the iteration order of \<open>actions b4\<close>, and \<open>minimax\<close> returns that
  first action; it is (0,2) when the iteration order lists (0,2) first.
\<close>

theorem minimax_b4_first_action:
  "iteration_order it \<Longrightarrow>
   (\<forall>a\<in>actions b4. max_value_after it b4 a = 1)
   \<and> hd (it (actions b4)) \<in> actions b4
   \<and> min_value it b4 = Inr (IntV 1, Some (hd (it (actions b4))))
   \<and> minimax it b4 = Inr (Some (hd (it (actions b4))))"
  using minimax_b4 [of it] b4_all_lost [of it] minimax_nonterminal [OF _ b4_not_terminal, of it]
  by auto

text \<open>With the row-major order the first action is (0,2), and \<open>minimax\<close> returns it.\<close>

theorem minimax_b4_first_action_witness:
  "iteration_order row_major \<and> hd (row_major (actions b4)) = (0, 2)
   \<and> max_value_after row_major b4 (0, 2) = 1
   \<and> min_value row_major b4 = Inr (IntV 1, Some (0, 2))
   \<and> minimax row_major b4 = Inr (Some (0, 2))"
  using minimax_b4_first_action [OF iteration_order_row_major] b4_action
  by (simp add: iteration_order_row_major row_major_b4)

text \<open>
  C5 as stated (on the empty board \<open>minimax\<close> returns a corner or the centre) fails:
  all nine openings have value 0, so \<open>minimax\<close> returns the action the iteration comes
  to first, and with \<open>slot_order\<close> that is the edge (0,1).
\<close>

theorem minimax_empty_board_edge:
  "iteration_order slot_order
   \<and> minimax slot_order empty_board = Inr (Some (0, 1))
   \<and> (0, 1) \<notin> ({(0, 0), (0, 2), (2, 0), (2, 2), (1, 1)} :: action set)"
  using minimax_empty_board(2) [OF iteration_order_slot_order]
  by (simp add: iteration_order_slot_order slot_order_empty_board)

text \<open>
  C5, amended: on the empty board every action has the value 0, \<open>max_value\<close> returns 0
  with the first action in the iteration order of \<open>actions empty_board\<close>, and \<open>minimax\<close>
  returns that first action: one value, fixed by the board and the iteration order.
\<close>

theorem minimax_empty_board_first_action:
  "iteration_order it \<Longrightarrow>
   (\<forall>a\<in>actions empty_board. min_value_after it empty_board a = 0)
   \<and> hd (it (actions empty_board)) \<in> actions empty_board
   \<and> max_value it empty_board = Inr (IntV 0, Some (hd (it (actions empty_board))))
   \<and> minimax it empty_board = Inr (Some (hd (it (actions empty_board))))"
  using minimax_empty_board [of it] openings_all_drawn [of it]
    minimax_nonterminal [OF _ terminal_empty_board, of it]
  by auto

text \<open>With the row-major order the first action is the corner (0,0).\<close>

theorem minimax_empty_board_first_action_witness:
  "iteration_order row_major \<and> hd (row_major (actions empty_board)) = (0, 0)
   \<and> (0, 0) \<in> actions empty_board
   \<and> min_value_after row_major empty_board (0, 0) = 0
   \<and> max_value row_major empty_board = Inr (IntV 0, Some (0, 0))
   \<and> minimax row_major empty_board = Inr (Some (0, 0))"
proof -
  have "(0, 0) \<in> actions empty_board"
    by (simp add: actions_empty_board cells_def)
  then show ?thesis
    using minimax_empty_board_first_action [OF iteration_order_row_major]
    by (simp add: iteration_order_row_major row_major_empty_board)
qed

section \<open>Two perfect players\<close>

text \<open>
  The scenario of the specification in which the computer plays both sides: while
  the board is not terminal, the action \<^verbatim>\<open>minimax\<close> returns is applied with \<^verbatim>\<open>result\<close>.
  The loop is the scenario's; the functions it calls are the program's. Passing
  \<^verbatim>\<open>None\<close> to \<^verbatim>\<open>result\<close> would raise, as \<^verbatim>\<open>None\<close> is in no action set.
\<close>

function self_play :: "iteration \<Rightarrow> board \<Rightarrow> error + board" where
  "self_play it b =
     (if terminal b then Inr b
      else (case minimax it b of
              Inl e \<Rightarrow> Inl e
            | Inr None \<Rightarrow> Inl InvalidAction
            | Inr (Some a) \<Rightarrow>
                (case result b a of
                   Inl e \<Rightarrow> Inl e
                 | Inr b' \<Rightarrow> self_play it b')))"
  by pat_completeness simp_all
termination
  by (relation "measure (\<lambda>(it, b). count_empty b)") (auto dest: result_count_empty)

declare self_play.simps [simp del]

lemma first_with_holds: "first_with P xs a \<Longrightarrow> P a"
  by (auto simp: first_with_def)

lemma utility_zero_iff: "utility b = 0 \<longleftrightarrow> winner b = None"
  unfolding utility_score by (cases "winner b" rule: score.cases) auto

lemma self_play_value:
  assumes it: "iteration_order it"
  shows "turn_of b p \<Longrightarrow>
         \<exists>b'. self_play it b = Inr b' \<and> terminal b' \<and> utility b' = node_value it p b"
proof (induction "count_empty b" arbitrary: b p rule: less_induct)
  case less
  show ?case
  proof (cases "terminal b")
    case True
    then show ?thesis
      using it by (simp add: self_play.simps node_value_terminal)
  next
    case False
    have pl: "player b = p" using less.prems by (rule turn_of_player)
    have next_board: "\<exists>b'. self_play it (board_set b a (Some p)) = Inr b' \<and> terminal b'
        \<and> utility b' = node_value it (other p) (board_set b a (Some p))"
      if "a \<in> actions b" for a
    proof (rule less.hyps)
      show "count_empty (board_set b a (Some p)) < count_empty b"
        using count_empty_board_set [of a b p] that by (simp add: actions_iff)
      show "turn_of (board_set b a (Some p)) (other p)"
        using less.prems that by (rule turn_of_step)
    qed
    show ?thesis
    proof (cases p)
      case PlayerX
      obtain a where a: "max_value it b = Inr (IntV (Max (min_value_after it b ` actions b)), Some a)"
        "a \<in> actions b"
        "first_with (\<lambda>a. min_value_after it b a = Max (min_value_after it b ` actions b))
           (it (actions b)) a"
        using search_nonterminal(1) [OF it False] by blast
      have v: "node_value it PlayerX b = node_value it PlayerO (board_set b a (Some p))"
        using first_with_holds [OF a(3)] node_value_after(1) [OF a(2), of it]
        by (simp add: node_value_def value_of_def a(1) pl)
      have "self_play it b = self_play it (board_set b a (Some p))"
        using False a(1,2) pl PlayerX
        by (subst self_play.simps) (simp add: minimax_def result_in_actions)
      with next_board [OF a(2)] v PlayerX show ?thesis by simp
    next
      case PlayerO
      obtain a where a: "min_value it b = Inr (IntV (Min (max_value_after it b ` actions b)), Some a)"
        "a \<in> actions b"
        "first_with (\<lambda>a. max_value_after it b a = Min (max_value_after it b ` actions b))
           (it (actions b)) a"
        using search_nonterminal(2) [OF it False] by blast
      have v: "node_value it PlayerO b = node_value it PlayerX (board_set b a (Some p))"
        using first_with_holds [OF a(3)] node_value_after(2) [OF a(2), of it]
        by (simp add: node_value_def value_of_def a(1) pl)
      have "self_play it b = self_play it (board_set b a (Some p))"
        using False a(1,2) pl PlayerO
        by (subst self_play.simps) (simp add: minimax_def result_in_actions)
      with next_board [OF a(2)] v PlayerO show ?thesis by simp
    qed
  qed
qed

text \<open>
  C1: from the empty board, with both sides' actions chosen by \<open>minimax\<close> and applied
  with \<open>result\<close> until the board is terminal, the play ends (without exception) on a
  board with no winner and utility 0; this holds for every iteration order of the
  action sets.
\<close>

theorem perfect_play_draws:
  "iteration_order it \<Longrightarrow>
   \<exists>b'. self_play it empty_board = Inr b' \<and> terminal b' \<and> winner b' = None \<and> utility b' = 0"
proof -
  assume it: "iteration_order it"
  have "node_value it PlayerX empty_board = 0"
    by (simp add: node_value_def value_of_def minimax_empty_board(1) [OF it])
  with self_play_value [OF it empty_board_facts(2)] show ?thesis
    by (auto simp: utility_zero_iff)
qed

text \<open>The instance at the row-major order.\<close>

theorem perfect_play_draws_witness:
  "iteration_order row_major
   \<and> (\<exists>b'. self_play row_major empty_board = Inr b' \<and> terminal b' \<and> winner b' = None
          \<and> utility b' = 0)"
  using perfect_play_draws [OF iteration_order_row_major]
  by (simp add: iteration_order_row_major)

section \<open>\<^verbatim>\<open>result\<close> on the store\<close>

text \<open>
  Whether \<^verbatim>\<open>result\<close> leaves its argument alone is a question about objects: a Python
  board is a list object holding references to three row list objects, and
  \<^verbatim>\<open>new_board[i][j] = ...\<close> writes into a row object. The store keeps the row objects
  and the board objects, each addressed by its index; allocation appends, and the two
  kinds of object are kept apart, so the order in which a copy allocates them does
  not show. The cells are immutable values (\<^verbatim>\<open>None\<close> or a string).
\<close>

record heap =
  row_objs :: "cell list list"
  board_objs :: "nat list list"

text \<open>The board value read from the store at a board object.\<close>

definition row_of :: "heap \<Rightarrow> nat \<Rightarrow> row" where
  "row_of h r = (let cs = row_objs h ! r in Row (cs ! 0) (cs ! 1) (cs ! 2))"

definition board_of :: "heap \<Rightarrow> nat \<Rightarrow> board" where
  "board_of h p =
     (let rs = board_objs h ! p
      in Board (row_of h (rs ! 0)) (row_of h (rs ! 1)) (row_of h (rs ! 2)))"

text \<open>
  A board object as \<^verbatim>\<open>__init__\<close> builds it and \<^verbatim>\<open>deepcopy\<close> keeps it: three different row
  objects of three cells each.
\<close>

definition wf_board :: "heap \<Rightarrow> nat \<Rightarrow> bool" where
  "wf_board h p \<longleftrightarrow>
     p < length (board_objs h) \<and> length (board_objs h ! p) = 3
     \<and> distinct (board_objs h ! p)
     \<and> (\<forall>r\<in>set (board_objs h ! p). r < length (row_objs h) \<and> length (row_objs h ! r) = 3)"

text \<open>
  \<^verbatim>\<open>copy.deepcopy\<close> of a list of lists: a new outer list whose elements are the copies
  of the rows; the memo gives a row met twice the same copy both times; a row is
  copied into a new list with the same cells.
\<close>

fun deepcopy_rows :: "heap \<Rightarrow> (nat \<times> nat) list \<Rightarrow> nat list
                        \<Rightarrow> heap \<times> (nat \<times> nat) list \<times> nat list" where
  "deepcopy_rows h memo [] = (h, memo, [])"
| "deepcopy_rows h memo (r # rs) =
     (case map_of memo r of
        Some r' \<Rightarrow>
          (let (h', memo', rs') = deepcopy_rows h memo rs in (h', memo', r' # rs'))
      | None \<Rightarrow>
          (let r' = length (row_objs h);
               h1 = h\<lparr>row_objs := row_objs h @ [row_objs h ! r]\<rparr>;
               (h', memo', rs') = deepcopy_rows h1 ((r, r') # memo) rs
           in (h', memo', r' # rs')))"

definition deepcopy_board :: "heap \<Rightarrow> nat \<Rightarrow> heap \<times> nat" where
  "deepcopy_board h p =
     (let (h', memo, rs') = deepcopy_rows h [] (board_objs h ! p)
      in (h'\<lparr>board_objs := board_objs h' @ [rs']\<rparr>, length (board_objs h')))"

text \<open>
  \<^verbatim>\<open>result\<close> with its objects: the check against \<^verbatim>\<open>actions(board)\<close>, the deep copy, and
  the assignment into the row \<^verbatim>\<open>new_board[action[0]]\<close> of the mark \<^verbatim>\<open>player(board)\<close>.
\<close>

definition result_heap :: "heap \<Rightarrow> nat \<Rightarrow> action \<Rightarrow> error + (heap \<times> nat)" where
  "result_heap h board a =
     (if a \<notin> actions (board_of h board) then Inl InvalidAction
      else (let (h1, new_board) = deepcopy_board h board;
                mark = Some (player (board_of h1 board));
                r = board_objs h1 ! new_board ! nat (fst a)
            in Inr (h1\<lparr>row_objs := (row_objs h1)[r := (row_objs h1 ! r)[nat (snd a) := mark]]\<rparr>,
                    new_board)))"

lemma wf_board_shape:
  assumes "wf_board h p"
  obtains r0 r1 r2 c0 c1 c2 c3 c4 c5 c6 c7 c8 where
    "board_objs h ! p = [r0, r1, r2]" "r0 \<noteq> r1" "r0 \<noteq> r2" "r1 \<noteq> r2"
    "r0 < length (row_objs h)" "r1 < length (row_objs h)" "r2 < length (row_objs h)"
    "row_objs h ! r0 = [c0, c1, c2]" "row_objs h ! r1 = [c3, c4, c5]"
    "row_objs h ! r2 = [c6, c7, c8]"
proof -
  have l3: "\<exists>x y z. xs = [x, y, z]" if "length xs = 3" for xs :: "'a list"
    using that by (cases xs; cases "tl xs"; cases "tl (tl xs)") auto
  obtain r0 r1 r2 where rs: "board_objs h ! p = [r0, r1, r2]"
    using assms l3 [of "board_objs h ! p"] by (auto simp: wf_board_def)
  have d: "r0 \<noteq> r1" "r0 \<noteq> r2" "r1 \<noteq> r2"
    and v: "r0 < length (row_objs h)" "r1 < length (row_objs h)" "r2 < length (row_objs h)"
    and l: "length (row_objs h ! r0) = 3" "length (row_objs h ! r1) = 3"
      "length (row_objs h ! r2) = 3"
    using assms by (auto simp: wf_board_def rs)
  obtain c0 c1 c2 where "row_objs h ! r0 = [c0, c1, c2]" using l3 [OF l(1)] by auto
  moreover obtain c3 c4 c5 where "row_objs h ! r1 = [c3, c4, c5]" using l3 [OF l(2)] by auto
  moreover obtain c6 c7 c8 where "row_objs h ! r2 = [c6, c7, c8]" using l3 [OF l(3)] by auto
  ultimately show ?thesis using that rs d v by blast
qed

lemma deepcopy_board_wf:
  assumes "board_objs h ! p = [r0, r1, r2]" "r0 \<noteq> r1" "r0 \<noteq> r2" "r1 \<noteq> r2"
    "r0 < length (row_objs h)" "r1 < length (row_objs h)" "r2 < length (row_objs h)"
  shows "deepcopy_board h p =
     (h\<lparr>row_objs := row_objs h @ [row_objs h ! r0, row_objs h ! r1, row_objs h ! r2],
        board_objs := board_objs h
          @ [[length (row_objs h), Suc (length (row_objs h)), Suc (Suc (length (row_objs h)))]]\<rparr>,
      length (board_objs h))"
  using assms by (simp add: deepcopy_board_def Let_def nth_append)

lemma board_of_shape:
  assumes "board_objs h ! p = [r0, r1, r2]"
    "row_objs h ! r0 = [c0, c1, c2]" "row_objs h ! r1 = [c3, c4, c5]"
    "row_objs h ! r2 = [c6, c7, c8]"
  shows "board_of h p = Board (Row c0 c1 c2) (Row c3 c4 c5) (Row c6 c7 c8)"
  using assms by (simp add: board_of_def row_of_def)

lemma result_heap_refines:
  assumes wf: "wf_board h p" and a: "a \<in> actions (board_of h p)"
  shows "\<exists>h' p'. result_heap h p a = Inr (h', p')
     \<and> result (board_of h p) a = Inr (board_of h' p')
     \<and> wf_board h' p'
     \<and> length (board_objs h) \<le> p'
     \<and> take (length (row_objs h)) (row_objs h') = row_objs h
     \<and> take (length (board_objs h)) (board_objs h') = board_objs h
     \<and> board_of h' p = board_of h p"
proof -
  obtain r0 r1 r2 c0 c1 c2 c3 c4 c5 c6 c7 c8 where s:
    "board_objs h ! p = [r0, r1, r2]" "r0 \<noteq> r1" "r0 \<noteq> r2" "r1 \<noteq> r2"
    "r0 < length (row_objs h)" "r1 < length (row_objs h)" "r2 < length (row_objs h)"
    "row_objs h ! r0 = [c0, c1, c2]" "row_objs h ! r1 = [c3, c4, c5]"
    "row_objs h ! r2 = [c6, c7, c8]"
    using wf by (rule wf_board_shape)
  have p: "p < length (board_objs h)" using wf by (simp add: wf_board_def)
  note dc = deepcopy_board_wf [OF s(1-7)]
  note b = board_of_shape [OF s(1,8,9,10)]
  let ?n = "length (row_objs h)"
  let ?h1 = "h\<lparr>row_objs := row_objs h @ [[c0, c1, c2], [c3, c4, c5], [c6, c7, c8]],
        board_objs := board_objs h @ [[?n, Suc ?n, Suc (Suc ?n)]]\<rparr>"
  have b1: "board_of ?h1 p = board_of h p"
    using s p by (simp add: board_of_def row_of_def nth_append)
  have mark: "player (board_of ?h1 p) = player (board_of h p)" by (simp only: b1)
  have res: "result (board_of h p) a = Inr (board_set (board_of h p) a (Some (player (board_of h p))))"
    using a by (rule result_in_actions)
  have "a \<in> set cells" using a by (simp add: actions_iff)
  then consider "a = (0, 0)" | "a = (0, 1)" | "a = (0, 2)" | "a = (1, 0)" | "a = (1, 1)"
    | "a = (1, 2)" | "a = (2, 0)" | "a = (2, 1)" | "a = (2, 2)"
    by (auto simp: cells_def)
  then show ?thesis
  proof cases
    case 1
    show ?thesis unfolding res result_heap_def dc using a p s mark
      by (simp add: 1 b Let_def wf_board_def board_of_def row_of_def nth_append)
  next
    case 2
    show ?thesis unfolding res result_heap_def dc using a p s mark
      by (simp add: 2 b Let_def wf_board_def board_of_def row_of_def nth_append)
  next
    case 3
    show ?thesis unfolding res result_heap_def dc using a p s mark
      by (simp add: 3 b Let_def wf_board_def board_of_def row_of_def nth_append)
  next
    case 4
    show ?thesis unfolding res result_heap_def dc using a p s mark
      by (simp add: 4 b Let_def wf_board_def board_of_def row_of_def nth_append)
  next
    case 5
    show ?thesis unfolding res result_heap_def dc using a p s mark
      by (simp add: 5 b Let_def wf_board_def board_of_def row_of_def nth_append)
  next
    case 6
    show ?thesis unfolding res result_heap_def dc using a p s mark
      by (simp add: 6 b Let_def wf_board_def board_of_def row_of_def nth_append)
  next
    case 7
    show ?thesis unfolding res result_heap_def dc using a p s mark
      by (simp add: 7 b Let_def wf_board_def board_of_def row_of_def nth_append)
  next
    case 8
    show ?thesis unfolding res result_heap_def dc using a p s mark
      by (simp add: 8 b Let_def wf_board_def board_of_def row_of_def nth_append)
  next
    case 9
    show ?thesis unfolding res result_heap_def dc using a p s mark
      by (simp add: 9 b Let_def wf_board_def board_of_def row_of_def nth_append)
  qed
qed

definition heap0 :: heap where
  "heap0 = \<lparr>row_objs = [[None, None, None], [None, None, None], [None, None, None]],
            board_objs = [[0, 1, 2]]\<rparr>"

lemma heap0_facts:
  "wf_board heap0 0" "board_of heap0 0 = empty_board" "(1, 1) \<in> actions (board_of heap0 0)"
  by (simp_all add: heap0_def wf_board_def board_of_def row_of_def empty_board_def
        actions_iff in_cells cell_at_def)

text \<open>
  C7: for a board object in the store and a legal action, \<open>result\<close> returns a new
  board object whose cell at the action is the mark of \<open>player board\<close> and whose
  other eight cells are those of the input; the value read is the one the function
  \<open>result\<close> on board values gives; and every object that was in the store before the
  call is unchanged, so the input board reads as before.
\<close>

theorem result_returns_updated_copy:
  "wf_board h p \<Longrightarrow> a \<in> actions (board_of h p) \<Longrightarrow>
   \<exists>h' p' b'. result_heap h p a = Inr (h', p')
     \<and> result (board_of h p) a = Inr b' \<and> board_of h' p' = b'
     \<and> cell_at b' a = Some (player (board_of h p))
     \<and> (\<forall>a'\<in>set cells. a' \<noteq> a \<longrightarrow> cell_at b' a' = cell_at (board_of h p) a')
     \<and> length (board_objs h) \<le> p'
     \<and> take (length (row_objs h)) (row_objs h') = row_objs h
     \<and> take (length (board_objs h)) (board_objs h') = board_objs h
     \<and> board_of h' p = board_of h p"
proof -
  assume wf: "wf_board h p" and a: "a \<in> actions (board_of h p)"
  obtain h' p' where r: "result_heap h p a = Inr (h', p')"
    "result (board_of h p) a = Inr (board_of h' p')"
    "length (board_objs h) \<le> p'"
    "take (length (row_objs h)) (row_objs h') = row_objs h"
    "take (length (board_objs h)) (board_objs h') = board_objs h"
    "board_of h' p = board_of h p"
    using result_heap_refines [OF wf a] by blast
  obtain b' where b': "result (board_of h p) a = Inr b'"
    "cell_at b' a = Some (player (board_of h p))"
    "\<forall>a'\<in>set cells. a' \<noteq> a \<longrightarrow> cell_at b' a' = cell_at (board_of h p) a'"
    using result_frame [OF a] by blast
  from r b' show ?thesis by auto
qed

text \<open>
  The instance at the store holding only the empty board and the action (1,1): the
  copy is allocated after the old objects, which stay as they were.
\<close>

theorem result_returns_updated_copy_witness:
  "wf_board heap0 0 \<and> board_of heap0 0 = empty_board \<and> (1, 1) \<in> actions (board_of heap0 0)
   \<and> result_heap heap0 0 (1, 1) =
       Inr (\<lparr>row_objs = [[None, None, None], [None, None, None], [None, None, None],
                         [None, None, None], [None, Some PlayerX, None], [None, None, None]],
             board_objs = [[0, 1, 2], [3, 4, 5]]\<rparr>, 1)
   \<and> (\<exists>h' p' b'. result_heap heap0 0 (1, 1) = Inr (h', p')
     \<and> result (board_of heap0 0) (1, 1) = Inr b' \<and> board_of h' p' = b'
     \<and> cell_at b' (1, 1) = Some (player (board_of heap0 0))
     \<and> (\<forall>a'\<in>set cells. a' \<noteq> (1, 1) \<longrightarrow> cell_at b' a' = cell_at (board_of heap0 0) a')
     \<and> length (board_objs heap0) \<le> p'
     \<and> take (length (row_objs heap0)) (row_objs h') = row_objs heap0
     \<and> take (length (board_objs heap0)) (board_objs h') = board_objs heap0
     \<and> board_of h' 0 = board_of heap0 0)"
proof -
  have "result_heap heap0 0 (1, 1) =
       Inr (\<lparr>row_objs = [[None, None, None], [None, None, None], [None, None, None],
                         [None, None, None], [None, Some PlayerX, None], [None, None, None]],
             board_objs = [[0, 1, 2], [3, 4, 5]]\<rparr>, 1)"
    using heap0_facts(3)
    by (simp add: result_heap_def deepcopy_board_def Let_def heap0_def board_of_def row_of_def
          player_def numeral_3_eq_3 numeral_2_eq_2)
  then show ?thesis
    using result_returns_updated_copy [OF heap0_facts(1,3)] heap0_facts by blast
qed

end
